theory Spec2Isabelle
  imports Complex_Main "HOL-Library.Log_Nat"
begin

section \<open>Python floating-point arithmetic\<close>

text \<open>
  The analysis helpers of \<^verbatim>\<open>backend/main.py\<close> compute with Python \<^verbatim>\<open>float\<close>,
  the IEEE 754 binary64 format. A float is modelled by the real number it denotes, and
  every arithmetic operation by the exact operation followed by \<open>fl\<close>, rounding to the
  nearest number with a 53-bit significand, ties to the even significand. The exponent
  range is not bounded: all values computed below lie far inside the normal range
  (no overflow, no subnormal result), and NaN and the infinities do not occur.
\<close>

definition round_half_even :: "real \<Rightarrow> int" where
  "round_half_even q =
     (let n = \<lfloor>q\<rfloor>; d = q - of_int n
      in if d < 1/2 then n else if 1/2 < d then n + 1 else if even n then n else n + 1)"

text \<open>The binary exponent of a positive number: \<open>2 powi e \<le> x < 2 powi (e + 1)\<close>.\<close>

definition exponent2 :: "real \<Rightarrow> int" where
  "exponent2 x = (if 1 \<le> x then bitlen \<lfloor>x\<rfloor> - 1 else - bitlen (\<lceil>1 / x\<rceil> - 1))"

definition fl :: "real \<Rightarrow> real" where
  "fl x =
     (if x = 0 then 0
      else let e = exponent2 \<bar>x\<bar> - 52
           in of_int (round_half_even (x / 2 powi e)) * 2 powi e)"

text \<open>Conversion of a Python \<^verbatim>\<open>int\<close> to \<^verbatim>\<open>float\<close> (correctly rounded).\<close>

definition float_of_int :: "int \<Rightarrow> real" where
  "float_of_int n = fl (of_int n)"

text \<open>\<^verbatim>\<open>int(x)\<close> on a float: truncation toward zero.\<close>

definition py_int :: "real \<Rightarrow> int" where
  "py_int x = (if 0 \<le> x then \<lfloor>x\<rfloor> else \<lceil>x\<rceil>)"

text \<open>
  \<^verbatim>\<open>round(x, ndigits)\<close> on a float: CPython converts the exact value of \<open>x\<close> to the
  decimal with \<open>ndigits\<close> places that is nearest to it (ties to even) and returns the float
  nearest to that decimal.
\<close>

definition py_round :: "real \<Rightarrow> nat \<Rightarrow> real" where
  "py_round x ndigits = fl (of_int (round_half_even (x * 10 ^ ndigits)) / 10 ^ ndigits)"

datatype error = ZeroDivisionError | ValueError

text \<open>\<^verbatim>\<open>a / b\<close> on two Python ints: the correctly rounded quotient, or an exception.\<close>

definition int_truediv :: "int \<Rightarrow> int \<Rightarrow> error + real" where
  "int_truediv a b = (if b = 0 then Inl ZeroDivisionError else Inr (fl (of_int a / of_int b)))"

section \<open>Freshness from the colour clusters\<close>

text \<open>
  \<^verbatim>\<open>compute_freshness_from_image\<close> hands the image to OpenCV (\<^verbatim>\<open>cv2.cvtColor\<close>,
  \<^verbatim>\<open>cv2.kmeans\<close>) and computes on what comes back: \<^verbatim>\<open>labels\<close>, one cluster id per
  pixel, and \<^verbatim>\<open>centers\<close>, one Lab triple per cluster. The two OpenCV calls are outside
  the repository; their result is the input of the model.
\<close>

record kmeans_result =
  labels :: "nat list"
  centers :: "(real \<times> real \<times> real) list"

text \<open>\<^verbatim>\<open>np.argmax\<close> and \<^verbatim>\<open>np.argmin\<close>: the first index of the extreme value.\<close>

fun argmax_from :: "real list \<Rightarrow> nat \<Rightarrow> nat \<Rightarrow> real \<Rightarrow> nat" where
  "argmax_from [] i best bv = best"
| "argmax_from (x # xs) i best bv =
     (if bv < x then argmax_from xs (i + 1) i x else argmax_from xs (i + 1) best bv)"

definition argmax :: "real list \<Rightarrow> error + nat" where
  "argmax xs = (case xs of [] \<Rightarrow> Inl ValueError | x # rest \<Rightarrow> Inr (argmax_from rest 1 0 x))"

fun argmin_from :: "real list \<Rightarrow> nat \<Rightarrow> nat \<Rightarrow> real \<Rightarrow> nat" where
  "argmin_from [] i best bv = best"
| "argmin_from (x # xs) i best bv =
     (if x < bv then argmin_from xs (i + 1) i x else argmin_from xs (i + 1) best bv)"

definition argmin :: "real list \<Rightarrow> error + nat" where
  "argmin xs = (case xs of [] \<Rightarrow> Inl ValueError | x # rest \<Rightarrow> Inr (argmin_from rest 1 0 x))"

text \<open>\<^verbatim>\<open>int((labels == c).sum())\<close>\<close>

definition count_label :: "nat list \<Rightarrow> nat \<Rightarrow> int" where
  "count_label ls c = int (length (filter (\<lambda>l. l = c) ls))"

definition compute_freshness_from_image :: "kmeans_result \<Rightarrow> error + (int \<times> int)" where
  "compute_freshness_from_image km =
     (let L = map fst (centers km);
          a = map (fst \<circ> snd) (centers km)
      in case argmax a of Inl e \<Rightarrow> Inl e | Inr fresh_cluster \<Rightarrow>
         (case argmin L of Inl e \<Rightarrow> Inl e | Inr spoiled_cluster \<Rightarrow>
           (let fresh_pixels = count_label (labels km) fresh_cluster;
                spoiled_pixels = count_label (labels km) spoiled_cluster;
                total_pixels = int (length (labels km));
                apple_pixels = fresh_pixels + spoiled_pixels
            in if of_int apple_pixels < fl (fl (5/100) * float_of_int total_pixels)
               then Inr (60, 30)
               else (case int_truediv fresh_pixels apple_pixels of Inl e \<Rightarrow> Inl e
                     | Inr fresh_ratio \<Rightarrow>
                       (case int_truediv spoiled_pixels apple_pixels of Inl e \<Rightarrow> Inl e
                        | Inr spoiled_ratio \<Rightarrow>
                            Inr (py_int (fl (100 * fresh_ratio)),
                                 py_int (fl (100 * spoiled_ratio))))))))"


section \<open>The cluster engine\<close>

text \<open>
  The clustering itself is done by \<^verbatim>\<open>cv2.kmeans(pixels, k, None, criteria, 5,
  cv2.KMEANS_PP_CENTERS)\<close> with \<open>k = 3\<close> and the criteria \<open>(EPS + MAX_ITER, 20, 1.0)\<close>;
  its code is not part of the source. Section 4.2 of the specification describes it, and
  the definitions of this section follow that description. Samples and centroids are
  triples of reals. The random seeding is an input: \<open>seeds i j\<close> is the centroid that the
  initialisation of run \<open>i\<close> chose as number \<open>j\<close>, so that a statement about every
  \<open>seeds\<close> holds for every outcome of the seeding.
\<close>

type_synonym sample = "real \<times> real \<times> real"

text \<open>
  Modelled from the spec: the squared distance of the "total within-cluster squared
  distance"; the distance function of the missing \<^verbatim>\<open>cv2.kmeans\<close>.
\<close>

definition sqdist :: "sample \<Rightarrow> sample \<Rightarrow> real" where
  "sqdist p q =
     (fst p - fst q) ^ 2 + (fst (snd p) - fst (snd q)) ^ 2 + (snd (snd p) - snd (snd q)) ^ 2"

text \<open>
  Modelled from the spec: the "per-sample cluster-id assignment" of the missing
  \<^verbatim>\<open>cv2.kmeans\<close>, Lloyd's assignment step. A sample gets the id of the nearest centroid,
  the first one among equally near centroids. The empty list of centroids does not
  occur: there are \<open>k = 3\<close> of them.
\<close>

definition nearest_centroid :: "sample list \<Rightarrow> sample \<Rightarrow> nat" where
  "nearest_centroid cs p =
     (case map (sqdist p) cs of [] \<Rightarrow> 0 | d # ds \<Rightarrow> argmin_from ds 1 0 d)"

text \<open>
  Modelled from the spec: the assignment of all samples, one cluster id per sample, in
  the order of the samples (the \<^verbatim>\<open>labels\<close> of the missing \<^verbatim>\<open>cv2.kmeans\<close>).
\<close>

definition assign_clusters :: "sample list \<Rightarrow> sample list \<Rightarrow> nat list" where
  "assign_clusters cs samples = map (nearest_centroid cs) samples"

text \<open>
  Modelled from the spec: the centroid of a cluster, the "representative average
  color" of the glossary; part of the missing \<^verbatim>\<open>cv2.kmeans\<close>.
\<close>

definition mean_sample :: "sample list \<Rightarrow> sample" where
  "mean_sample ps =
     (sum_list (map fst ps) / of_nat (length ps),
      sum_list (map (fst \<circ> snd) ps) / of_nat (length ps),
      sum_list (map (snd \<circ> snd) ps) / of_nat (length ps))"

text \<open>
  Modelled from the spec: one step of the "iterative centroid refinement (Lloyd-style)"
  of the missing \<^verbatim>\<open>cv2.kmeans\<close>. Every centroid moves to the average of the samples
  assigned to it. The specification does not say what happens to a cluster without
  samples; here its centroid stays where it is.
\<close>

definition refine_centroids :: "sample list \<Rightarrow> sample list \<Rightarrow> nat list \<Rightarrow> sample list" where
  "refine_centroids samples cs ls =
     map (\<lambda>j. let members = map fst (filter (\<lambda>(p, l). l = j) (zip samples ls))
              in if members = [] then cs ! j else mean_sample members)
         [0..<length cs]"

text \<open>
  Modelled from the spec: the test of "stop when centroid movement falls below an
  epsilon threshold (1.0 in the color space's units)" of the missing \<^verbatim>\<open>cv2.kmeans\<close>.
  Some centroid has moved by 1.0 or more, that is, by a squared distance of 1 or more.
\<close>

definition centroids_moved :: "sample list \<Rightarrow> sample list \<Rightarrow> bool" where
  "centroids_moved cs cs' = list_ex (\<lambda>(c, c'). 1 \<le> sqdist c c') (zip cs cs')"

text \<open>
  Modelled from the spec: the refinement loop of the missing \<^verbatim>\<open>cv2.kmeans\<close>, which
  stops when the movement falls below the threshold "or after a maximum of 20
  refinement iterations, whichever first". The first argument counts the iterations
  that are left. The result is the centroids and the assignment of the samples to them.
\<close>

fun lloyd :: "nat \<Rightarrow> sample list \<Rightarrow> sample list \<Rightarrow> sample list \<times> nat list" where
  "lloyd 0 samples cs = (cs, assign_clusters cs samples)"
| "lloyd (Suc n) samples cs =
     (let cs' = refine_centroids samples cs (assign_clusters cs samples)
      in if centroids_moved cs cs' then lloyd n samples cs'
         else (cs', assign_clusters cs' samples))"

text \<open>
  Modelled from the spec: the "total within-cluster squared distance (compactness)" of
  a run of the missing \<^verbatim>\<open>cv2.kmeans\<close>.
\<close>

definition compactness :: "sample list \<Rightarrow> sample list \<times> nat list \<Rightarrow> real" where
  "compactness samples run =
     sum_list (map (\<lambda>(p, l). sqdist p (fst run ! l)) (zip samples (snd run)))"

text \<open>
  Modelled from the spec: one run of the "full procedure" of the missing
  \<^verbatim>\<open>cv2.kmeans\<close>: \<open>k\<close> seeded centroids, refined for at most 20 iterations.
\<close>

definition clustering_run ::
  "nat \<Rightarrow> (nat \<Rightarrow> sample) \<Rightarrow> sample list \<Rightarrow> sample list \<times> nat list" where
  "clustering_run k seed samples = lloyd 20 samples (map seed [0..<k])"

text \<open>
  Modelled from the spec: "keep the run with lowest total within-cluster squared
  distance (compactness). Tie-break: first run achieving the minimum"; the choice among
  the attempts of the missing \<^verbatim>\<open>cv2.kmeans\<close>.
\<close>

fun best_run ::
  "sample list \<Rightarrow> sample list \<times> nat list \<Rightarrow> (sample list \<times> nat list) list
     \<Rightarrow> sample list \<times> nat list" where
  "best_run samples best [] = best"
| "best_run samples best (run # runs) =
     (if compactness samples run < compactness samples best
      then best_run samples run runs else best_run samples best runs)"

text \<open>
  Modelled from the spec: the ClusterEngine, the missing \<^verbatim>\<open>cv2.kmeans\<close> as
  \<^verbatim>\<open>compute_freshness_from_image\<close> calls it: cluster count 3, "run the full procedure
  5 independent times with independent seeding", the best run kept. It "returns k
  centroids and a per-sample cluster-id assignment", the \<^verbatim>\<open>centers\<close> and \<^verbatim>\<open>labels\<close> that
  \<^verbatim>\<open>compute_freshness_from_image\<close> computes on.
\<close>

definition cluster_engine :: "(nat \<Rightarrow> nat \<Rightarrow> sample) \<Rightarrow> sample list \<Rightarrow> kmeans_result" where
  "cluster_engine seeds samples =
     (let runs = map (\<lambda>i. clustering_run 3 (seeds i) samples) [0..<5];
          best = best_run samples (hd runs) (tl runs)
      in \<lparr>labels = snd best, centers = fst best\<rparr>)"

section \<open>Risk label of a spoilage ratio\<close>

definition spoilage_risk_label_from_ratio :: "int \<Rightarrow> string" where
  "spoilage_risk_label_from_ratio spoilage_ratio =
     (if spoilage_ratio \<le> 25 then ''Low''
      else if spoilage_ratio \<le> 50 then ''Medium''
      else ''High'')"

section \<open>Dry matter and nutrition\<close>

text \<open>
  The literals \<^verbatim>\<open>10.0\<close>, \<^verbatim>\<open>14.0\<close>, \<^verbatim>\<open>0.5\<close> and the other integers and halves are
  floats as they stand; \<^verbatim>\<open>0.08\<close>, \<^verbatim>\<open>2.4\<close>, \<^verbatim>\<open>0.3\<close> and \<^verbatim>\<open>4.6\<close> denote the float
  nearest to the decimal.
\<close>

definition dry_matter_from_freshness :: "int \<Rightarrow> real" where
  "dry_matter_from_freshness freshness0 =
     (let freshness = max 0 (min 100 freshness0)
      in py_round (fl (10 + fl (fl (8/100) * float_of_int freshness))) 1)"



section \<open>Weight from the largest contour\<close>

text \<open>
  \<^verbatim>\<open>estimate_weight_from_image\<close> obtains the contours of the thresholded image from
  OpenCV. Of a contour the function uses two numbers, both computed by OpenCV:
  \<^verbatim>\<open>cv2.contourArea(c)\<close> and the radius of \<^verbatim>\<open>cv2.minEnclosingCircle(c)\<close>. The model
  takes the list of contours with these two numbers, the value \<open>u\<close> that
  \<^verbatim>\<open>random.uniform(0.15, 0.30)\<close> returns, and the C library's power function
  \<open>pw x\<close> for \<^verbatim>\<open>x ** 1.2\<close>.
\<close>

record contour =
  contourArea :: real
  enclosing_radius :: real

text \<open>\<^verbatim>\<open>max(contours, key=cv2.contourArea)\<close>: the first contour of maximal area.\<close>

fun max_by_area :: "contour \<Rightarrow> contour list \<Rightarrow> contour" where
  "max_by_area best [] = best"
| "max_by_area best (c # cs) =
     (if contourArea best < contourArea c then max_by_area c cs else max_by_area best cs)"

definition estimate_weight_from_image :: "contour list \<Rightarrow> real \<Rightarrow> (real \<Rightarrow> real) \<Rightarrow> real" where
  "estimate_weight_from_image contours u pw =
     (case contours of
        [] \<Rightarrow> py_round u 2
      | c0 # cs \<Rightarrow>
          (let c = max_by_area c0 cs;
               radius = max (enclosing_radius c) 10;
               weight = fl (fl (15/10000) * pw radius)
           in py_round weight 2))"

text \<open>
  What the model takes from the two library calls. \<^verbatim>\<open>random.uniform(a, b)\<close> is
  \<^verbatim>\<open>a + (b - a) * random()\<close> in floats, with \<open>r\<close> the value of \<^verbatim>\<open>random()\<close>, a float
  with \<open>0 \<le> r < 1\<close>. The power function of the C library is not correctly rounded; it
  is taken to be accurate to one unit in the last place, a relative error of at most
  \<open>1 / 2 ^ 52\<close> from the real power with the float exponent \<^verbatim>\<open>1.2\<close>.
\<close>

definition random_uniform :: "real \<Rightarrow> real \<Rightarrow> real \<Rightarrow> real" where
  "random_uniform a b r = fl (a + fl (fl (b - a) * r))"

definition pow_accurate :: "(real \<Rightarrow> real) \<Rightarrow> bool" where
  "pow_accurate pw \<longleftrightarrow>
     (\<forall>x. 0 < x \<longrightarrow> \<bar>pw x - x powr fl (12/10)\<bar> \<le> x powr fl (12/10) / 2 ^ 52)"


section \<open>Rounding lemmas\<close>

lemma round_half_even_error: "\<bar>of_int (round_half_even q) - q\<bar> \<le> 1/2"
  unfolding round_half_even_def Let_def by (auto; linarith)

lemma round_half_even_of_int [simp]: "round_half_even (of_int n) = n"
  unfolding round_half_even_def Let_def by simp

lemma round_half_even_mono: "q \<le> q' \<Longrightarrow> round_half_even q \<le> round_half_even q'"
proof -
  assume le: "q \<le> q'"
  have fm: "\<lfloor>q\<rfloor> \<le> \<lfloor>q'\<rfloor>" using le by (rule floor_mono)
  show ?thesis
  proof (cases "\<lfloor>q\<rfloor> = \<lfloor>q'\<rfloor>")
    case True
    then show ?thesis using le unfolding round_half_even_def Let_def by auto
  next
    case False
    then have "\<lfloor>q\<rfloor> + 1 \<le> \<lfloor>q'\<rfloor>" using fm by linarith
    moreover have "round_half_even q \<le> \<lfloor>q\<rfloor> + 1"
      unfolding round_half_even_def Let_def by auto
    moreover have "\<lfloor>q'\<rfloor> \<le> round_half_even q'"
      unfolding round_half_even_def Let_def by auto
    ultimately show ?thesis by linarith
  qed
qed

lemma round_half_even_near:
  assumes "\<bar>q - of_int n\<bar> < 1/2"
  shows "round_half_even q = n"
proof -
  from assms have "q - of_int n < 1/2 \<and> - (q - of_int n) < 1/2"
    by (simp only: abs_less_iff)
  then have lo: "of_int n - 1/2 < q" and hi: "q < of_int n + 1/2"
    by linarith+
  show ?thesis
  proof (cases "of_int n \<le> q")
    case True
    then have f: "\<lfloor>q\<rfloor> = n" using hi by (auto simp: floor_eq_iff)
    have "q - of_int \<lfloor>q\<rfloor> < 1/2" unfolding f using hi by linarith
    then show ?thesis using f by (simp add: round_half_even_def Let_def)
  next
    case False
    then have f: "\<lfloor>q\<rfloor> = n - 1" using lo by (auto simp: floor_eq_iff)
    have "1/2 < q - of_int \<lfloor>q\<rfloor>" unfolding f using lo by simp
    then show ?thesis using f by (simp add: round_half_even_def Let_def)
  qed
qed

lemma exponent2_bounds:
  assumes "0 < x"
  shows "2 powi exponent2 x \<le> x \<and> x < 2 powi (exponent2 x + 1)"
proof (cases "1 \<le> x")
  case True
  define n where "n = \<lfloor>x\<rfloor>"
  have n: "0 < n" using True by (simp add: n_def)
  have b1: "1 \<le> bitlen n" using n bitlen_eq_zero_iff [of n] bitlen_nonneg [of n] by linarith
  from bitlen_bounds [OF n] have lo: "2 ^ nat (bitlen n - 1) \<le> n" and hi: "n < 2 ^ nat (bitlen n)"
    by auto
  have "(2::real) ^ nat (bitlen n - 1) \<le> of_int n"
    using lo by (metis of_int_le_iff of_int_numeral of_int_power)
  also have "\<dots> \<le> x" by (simp add: n_def)
  finally have L: "(2::real) powi (bitlen n - 1) \<le> x"
    using b1 by (simp add: power_int_def)
  have "n + 1 \<le> 2 ^ nat (bitlen n)" using hi by simp
  then have "of_int (n + 1) \<le> (2::real) ^ nat (bitlen n)"
    by (metis of_int_le_iff of_int_numeral of_int_power)
  moreover have "x < of_int (n + 1)" unfolding n_def by linarith
  ultimately have "x < (2::real) ^ nat (bitlen n)" by linarith
  then have U: "x < (2::real) powi (bitlen n - 1 + 1)"
    using b1 by (simp add: power_int_def)
  show ?thesis using True L U by (simp add: exponent2_def n_def)
next
  case False
  then have x1: "x < 1" by simp
  define m where "m = \<lceil>1 / x\<rceil> - 1"
  have y1: "1 < 1 / x" using assms x1 by simp
  have m: "0 < m" unfolding m_def using y1 by linarith
  have b1: "1 \<le> bitlen m" using m bitlen_eq_zero_iff [of m] bitlen_nonneg [of m] by linarith
  from bitlen_bounds [OF m] have lo: "2 ^ nat (bitlen m - 1) \<le> m" and hi: "m < 2 ^ nat (bitlen m)"
    by auto
  have "(2::real) ^ nat (bitlen m - 1) \<le> of_int m"
    using lo by (metis of_int_le_iff of_int_numeral of_int_power)
  also have "of_int m < 1 / x" unfolding m_def by linarith
  finally have A: "(2::real) ^ nat (bitlen m - 1) < 1 / x" .
  have "m + 1 \<le> 2 ^ nat (bitlen m)" using hi by simp
  then have "of_int (m + 1) \<le> (2::real) ^ nat (bitlen m)"
    by (metis of_int_le_iff of_int_numeral of_int_power)
  moreover have "1 / x \<le> of_int (m + 1)" unfolding m_def by simp
  ultimately have B: "1 / x \<le> (2::real) ^ nat (bitlen m)" by linarith
  have L: "(2::real) powi (- bitlen m) \<le> x"
  proof -
    have "1 \<le> x * (2::real) ^ nat (bitlen m)"
      using B assms by (simp add: field_simps)
    then have "1 / (2::real) ^ nat (bitlen m) \<le> x"
      by (simp add: field_simps)
    then show ?thesis using b1 by (simp add: power_int_def field_simps)
  qed
  have U: "x < (2::real) powi (- bitlen m + 1)"
  proof -
    have "x * (2::real) ^ nat (bitlen m - 1) < 1"
      using A assms by (simp add: field_simps)
    then have "x < 1 / (2::real) ^ nat (bitlen m - 1)"
      by (simp add: field_simps)
    moreover have "(2::real) powi (- bitlen m + 1) = 1 / 2 ^ nat (bitlen m - 1)"
      using b1 by (simp add: power_int_def field_simps nat_diff_distrib)
    ultimately show ?thesis by simp
  qed
  show ?thesis using x1 L U by (simp add: exponent2_def m_def)
qed


lemma exponent2_unique:
  assumes "0 < x" and lo: "2 powi e \<le> x" and hi: "x < 2 powi (e + 1)"
  shows "exponent2 x = e"
proof -
  from exponent2_bounds [OF assms(1)]
  have lo': "2 powi exponent2 x \<le> x" and hi': "x < 2 powi (exponent2 x + 1)" by auto
  have "\<not> exponent2 x < e"
  proof
    assume "exponent2 x < e"
    then have "(2::real) powi (exponent2 x + 1) \<le> 2 powi e"
      by (intro power_int_increasing) auto
    with hi' lo show False by linarith
  qed
  moreover have "\<not> e < exponent2 x"
  proof
    assume "e < exponent2 x"
    then have "(2::real) powi (e + 1) \<le> 2 powi exponent2 x"
      by (intro power_int_increasing) auto
    with hi lo' show False by linarith
  qed
  ultimately show ?thesis by linarith
qed

lemma fl_zero [simp]: "fl 0 = 0"
  by (simp add: fl_def)

lemma fl_at_exponent:
  assumes "0 < x" and "2 powi e \<le> x" and "x < 2 powi (e + 1)"
  shows "fl x = of_int (round_half_even (x / 2 powi (e - 52))) * 2 powi (e - 52)"
  using assms exponent2_unique [OF assms] by (simp add: fl_def Let_def)

lemma round_half_even_uminus: "round_half_even (- q) = - round_half_even q"
proof (cases "q = of_int \<lfloor>q\<rfloor>")
  case True
  then obtain n where "q = of_int n" ..
  then have "- q = of_int (- n)" by simp
  then show ?thesis using \<open>q = of_int n\<close> by (metis round_half_even_of_int)
next
  case False
  then have lt: "of_int \<lfloor>q\<rfloor> < q" using of_int_floor_le [of q] by linarith
  have f: "\<lfloor>- q\<rfloor> = - \<lfloor>q\<rfloor> - 1"
    using lt by (auto simp: floor_eq_iff) linarith+
  show ?thesis
    unfolding round_half_even_def Let_def f using lt by (auto; linarith?)
qed

lemma fl_uminus: "fl (- x) = - fl x"
  by (simp add: fl_def Let_def round_half_even_uminus)

lemma fl_error:
  "\<bar>fl x - x\<bar> \<le> \<bar>x\<bar> / 2 ^ 53"
proof (cases "x = 0")
  case True
  then show ?thesis by simp
next
  case False
  define E where "E = exponent2 \<bar>x\<bar>"
  define s :: real where "s = 2 powi (E - 52)"
  have s: "0 < s" by (simp add: s_def)
  have flx: "fl x = of_int (round_half_even (x / s)) * s"
    using False by (simp add: fl_def Let_def E_def s_def)
  have "\<bar>of_int (round_half_even (x / s)) - x / s\<bar> * s \<le> 1/2 * s"
    using round_half_even_error [of "x / s"] s by (intro mult_right_mono) auto
  moreover have "\<bar>of_int (round_half_even (x / s)) - x / s\<bar> * s = \<bar>fl x - x\<bar>"
  proof -
    have "\<bar>of_int (round_half_even (x / s)) - x / s\<bar> * s
          = \<bar>(of_int (round_half_even (x / s)) - x / s) * s\<bar>"
      using s by (simp add: abs_mult)
    also have "(of_int (round_half_even (x / s)) - x / s) * s = fl x - x"
      using s by (simp add: flx field_simps)
    finally show ?thesis .
  qed
  ultimately have A: "\<bar>fl x - x\<bar> \<le> s / 2" by simp
  have "s / 2 = 2 powi E / 2 ^ 53"
    by (simp add: s_def power_int_diff)
  moreover have "2 powi E \<le> \<bar>x\<bar>"
    using exponent2_bounds [of "\<bar>x\<bar>"] False by (simp add: E_def)
  ultimately have "s / 2 \<le> \<bar>x\<bar> / 2 ^ 53"
    by (simp add: divide_right_mono)
  with A show ?thesis by linarith
qed


lemma fl_range:
  assumes "0 < x"
  shows "2 powi exponent2 x \<le> fl x \<and> fl x \<le> 2 powi (exponent2 x + 1)"
proof -
  define E where "E = exponent2 x"
  define s :: real where "s = 2 powi (E - 52)"
  have s: "0 < s" by (simp add: s_def)
  from exponent2_bounds [OF assms]
  have lo: "2 powi E \<le> x" and hi: "x < 2 powi (E + 1)" by (auto simp: E_def)
  have flx: "fl x = of_int (round_half_even (x / s)) * s"
    using assms by (simp add: fl_def Let_def E_def s_def)
  have p52: "2 powi E = 2 ^ 52 * s" by (simp add: s_def power_int_diff)
  have p53: "2 powi (E + 1) = 2 ^ 53 * s" by (simp add: s_def power_int_diff power_int_add)
  have "2 ^ 52 \<le> x / s" using lo s by (simp add: p52 field_simps)
  then have "round_half_even (of_int (2 ^ 52)) \<le> round_half_even (x / s)"
    by (intro round_half_even_mono) simp
  then have "(2::int) ^ 52 \<le> round_half_even (x / s)"
    by (simp only: round_half_even_of_int)
  then have "(2::real) ^ 52 \<le> of_int (round_half_even (x / s))"
    by (metis of_int_le_iff of_int_numeral of_int_power)
  then have A: "2 powi E \<le> fl x" using s by (simp add: p52 flx)
  have "x / s \<le> 2 ^ 53" using hi s by (simp add: p53 field_simps)
  then have "round_half_even (x / s) \<le> round_half_even (of_int (2 ^ 53))"
    by (intro round_half_even_mono) simp
  then have "round_half_even (x / s) \<le> (2::int) ^ 53"
    by (simp only: round_half_even_of_int)
  then have "of_int (round_half_even (x / s)) \<le> (2::real) ^ 53"
    by (metis of_int_le_iff of_int_numeral of_int_power)
  then have B: "fl x \<le> 2 powi (E + 1)" using s by (simp add: p53 flx)
  show ?thesis using A B by (simp add: E_def)
qed

lemma fl_pos_mono:
  assumes "0 < x" and "x \<le> y"
  shows "fl x \<le> fl y"
proof -
  have y: "0 < y" using assms by linarith
  note bx = exponent2_bounds [OF assms(1)] and by' = exponent2_bounds [OF y]
  have le: "exponent2 x \<le> exponent2 y"
  proof (rule ccontr)
    assume "\<not> exponent2 x \<le> exponent2 y"
    then have "(2::real) powi (exponent2 y + 1) \<le> 2 powi exponent2 x"
      by (intro power_int_increasing) auto
    with bx by' assms(2) show False by linarith
  qed
  show ?thesis
  proof (cases "exponent2 x = exponent2 y")
    case True
    define s :: real where "s = 2 powi (exponent2 y - 52)"
    have s: "0 < s" by (simp add: s_def)
    have "x / s \<le> y / s" using assms(2) s by (simp add: divide_right_mono)
    then have "round_half_even (x / s) \<le> round_half_even (y / s)"
      by (rule round_half_even_mono)
    then have "of_int (round_half_even (x / s)) * s \<le> of_int (round_half_even (y / s)) * s"
      using s by (intro mult_right_mono) auto
    then show ?thesis using assms(1) y True by (simp add: fl_def Let_def s_def)
  next
    case False
    with le have "exponent2 x + 1 \<le> exponent2 y" by linarith
    then have "(2::real) powi (exponent2 x + 1) \<le> 2 powi exponent2 y"
      by (intro power_int_increasing) auto
    with fl_range [OF assms(1)] fl_range [OF y] show ?thesis by linarith
  qed
qed

lemma fl_nonneg: "0 \<le> x \<Longrightarrow> 0 \<le> fl x"
proof (cases "x = 0")
  case False
  assume "0 \<le> x"
  with False have x: "0 < x" by simp
  have "(0::real) < 2 powi exponent2 x" by simp
  with fl_range [OF x] show ?thesis by linarith
qed simp

lemma fl_mono:
  assumes "x \<le> y"
  shows "fl x \<le> fl y"
proof -
  consider "0 < x" | "x \<le> 0" "0 \<le> y" | "y < 0" by linarith
  then show ?thesis
  proof cases
    case 1
    then show ?thesis using assms by (rule fl_pos_mono)
  next
    case 2
    have "0 \<le> fl (- x)" using 2 by (intro fl_nonneg) simp
    then have "fl x \<le> 0" by (simp add: fl_uminus)
    moreover have "0 \<le> fl y" using 2 by (intro fl_nonneg)
    ultimately show ?thesis by linarith
  next
    case 3
    have "fl (- y) \<le> fl (- x)" using 3 assms by (intro fl_pos_mono) auto
    then show ?thesis by (simp add: fl_uminus)
  qed
qed

lemma fl_of_nat_int:
  assumes "0 < n" and "n < 2 ^ 53"
  shows "fl (of_int n) = of_int n"
proof -
  define E where "E = exponent2 (of_int n)"
  have x: "(0::real) < of_int n" using assms by simp
  from exponent2_bounds [OF x] have lo: "2 powi E \<le> (of_int n :: real)" by (simp add: E_def)
  have "(of_int n :: real) < 2 ^ 53" using assms(2)
    by (metis of_int_less_iff of_int_numeral of_int_power)
  with lo have "(2::real) powi E < 2 powi 53" by simp
  then have E: "E < 53" by (rule power_int_le_imp_less_exp [rotated]) auto
  define k where "k = nat (52 - E)"
  have s: "(2::real) powi (E - 52) = 1 / 2 ^ k"
    using E by (simp add: k_def power_int_def field_simps)
  have "of_int n / (2::real) powi (E - 52) = of_int (n * 2 ^ k)"
    by (simp add: s)
  then have "round_half_even (of_int n / 2 powi (E - 52)) = n * 2 ^ k"
    by (metis round_half_even_of_int)
  then show ?thesis using x s by (simp add: fl_def Let_def E_def [symmetric])
qed

section \<open>The five-percent test and the label counts\<close>

lemma two_powi_less_imp: "(2::real) powi m < 2 powi n \<Longrightarrow> m < n"
proof (rule ccontr)
  assume a: "(2::real) powi m < 2 powi n" and "\<not> m < n"
  then have "(2::real) powi n \<le> 2 powi m" by (intro power_int_increasing) auto
  with a show False by linarith
qed

lemma fl_five_percent: "fl (5/100) = 3602879701896397 / 2 ^ 56"
  by (simp add: fl_at_exponent [where e = "-5"] round_half_even_def)

lemma fl_int_tie:
  assumes a0: "0 < a" and a53: "a < 2 ^ 53"
  shows "fl (of_int a * (1 + 1 / 2 ^ 54)) = of_int a"
proof -
  define x :: real where "x = of_int a * (1 + 1 / 2 ^ 54)"
  define E where "E = exponent2 (of_int a)"
  have ra: "(0::real) < of_int a" using a0 by simp
  from exponent2_bounds [OF ra]
  have lo: "2 powi E \<le> (of_int a :: real)" and hi: "(of_int a :: real) < 2 powi (E + 1)"
    by (auto simp: E_def)
  have "(1::real) \<le> of_int a" using a0 by simp
  with hi have "(2::real) powi 0 < 2 powi (E + 1)" by simp
  then have E0: "0 \<le> E" using two_powi_less_imp [of 0 "E + 1"] by simp
  have ra53: "(of_int a :: real) < 2 ^ 53" using a53
    by (metis of_int_less_iff of_int_numeral of_int_power)
  with lo have "(2::real) powi E < 2 powi 53" by simp
  then have E52: "E \<le> 52" using two_powi_less_imp [of E 53] by simp
  define k where "k = nat (52 - E)"
  define N where "N = a * 2 ^ k"
  define s :: real where "s = 2 powi (E - 52)"
  have s: "s = 1 / 2 ^ k" using E52 by (simp add: s_def k_def power_int_def field_simps)
  have sE: "2 powi E = 2 ^ 52 * s" by (simp add: s_def power_int_diff)
  have sE1: "2 powi (E + 1) = 2 ^ 53 * s" by (simp add: s_def power_int_diff power_int_add)
  have s0: "0 < s" by (simp add: s_def)
  have aN: "of_int a = of_int N * s" by (simp add: N_def s)
  have N53: "of_int N < (2::real) ^ 53" using hi s0 by (simp add: sE1 aN)
  then have "N < 2 ^ 53" by (metis of_int_less_iff of_int_numeral of_int_power)
  then have "N + 1 \<le> 2 ^ 53" by simp
  then have N53': "of_int N + 1 \<le> (2::real) ^ 53"
    by (metis of_int_le_iff of_int_numeral of_int_power of_int_add of_int_1)
  have N0: "(0::real) < of_int N" using ra s0 by (simp add: aN zero_less_mult_iff)
  have xs: "x / s = of_int N * (1 + 1 / 2 ^ 54)" using s0 by (simp add: x_def aN)
  have x0: "0 < x" using ra by (simp add: x_def zero_less_mult_iff)
  have xlo: "2 powi E \<le> x" using lo ra by (simp add: x_def algebra_simps)
  have "of_int N * (1 + 1 / 2 ^ 54) < (2::real) ^ 53"
    using N53' N0 by (simp add: algebra_simps)
  then have "x / s < 2 ^ 53" by (simp add: xs)
  then have xhi: "x < 2 powi (E + 1)" using s0 by (simp add: sE1 field_simps)
  have "\<bar>x / s - of_int N\<bar> < 1 / 2"
    using N53 N0 by (simp add: xs algebra_simps)
  then have "round_half_even (x / s) = N" by (rule round_half_even_near)
  then have "fl x = of_int N * s"
    using fl_at_exponent [OF x0 xlo xhi] by (simp add: s_def)
  then show ?thesis by (simp add: x_def aN [symmetric])
qed


lemma float_of_int_exact: "0 \<le> n \<Longrightarrow> n < 2 ^ 53 \<Longrightarrow> float_of_int n = of_int n"
  using fl_of_nat_int [of n] by (cases "n = 0") (auto simp: float_of_int_def)

lemma fl_error_pos:
  assumes "0 \<le> x"
  shows "x - x / 2 ^ 53 \<le> fl x" and "fl x \<le> x + x / 2 ^ 53"
proof -
  have "\<bar>fl x - x\<bar> \<le> x / 2 ^ 53" using fl_error [of x] assms by simp
  then have "fl x - x \<le> x / 2 ^ 53 \<and> - (fl x - x) \<le> x / 2 ^ 53"
    by (simp only: abs_le_iff)
  then show "x - x / 2 ^ 53 \<le> fl x" and "fl x \<le> x + x / 2 ^ 53" by linarith+
qed

lemma five_percent_test:
  assumes a0: "0 \<le> a" and a53: "a < 2 ^ 53" and t0: "0 \<le> t" and t53: "t < 2 ^ 53"
  shows "of_int a < fl (fl (5/100) * float_of_int t) \<longleftrightarrow> 20 * a < t"
proof -
  define y :: real where "y = fl (5/100) * float_of_int t"
  have y: "y = of_int t / 20 * (1 + 1 / 2 ^ 54)"
    unfolding y_def fl_five_percent float_of_int_exact [OF t0 t53] by simp
  have rt53: "(of_int t :: real) < 2 ^ 53" using t53
    by (metis of_int_less_iff of_int_numeral of_int_power)
  have rt0: "(0::real) \<le> of_int t" using t0 by simp
  have y0: "0 \<le> y" using rt0 by (simp add: y)
  show ?thesis
  proof
    assume "of_int a < fl (fl (5/100) * float_of_int t)"
    then have lt: "of_int a < fl y" by (simp add: y_def)
    show "20 * a < t"
    proof (rule ccontr)
      assume "\<not> 20 * a < t"
      then have "t \<le> 20 * a" by simp
      then have "(of_int t :: real) \<le> of_int (20 * a)" by (simp only: of_int_le_iff)
      then have "(of_int t :: real) / 20 \<le> of_int a" by simp
      then have "y \<le> of_int a * (1 + 1 / 2 ^ 54)"
        unfolding y by (intro mult_right_mono) auto
      then have "fl y \<le> fl (of_int a * (1 + 1 / 2 ^ 54))" by (rule fl_mono)
      moreover have "fl (of_int a * (1 + 1 / 2 ^ 54)) = of_int a"
        using fl_int_tie [of a] a0 a53 by (cases "a = 0") auto
      ultimately show False using lt by linarith
    qed
  next
    assume "20 * a < t"
    then have "20 * a + 1 \<le> t" by simp
    then have "(of_int (20 * a + 1) :: real) \<le> of_int t" by (simp only: of_int_le_iff)
    then have le: "20 * of_int a + 1 \<le> (of_int t :: real)" by simp
    have "y - y / 2 ^ 53 \<le> fl y" using y0 by (rule fl_error_pos)
    moreover have "of_int a < y - y / 2 ^ 53"
      using le rt53 by (simp add: y algebra_simps)
    ultimately show "of_int a < fl (fl (5/100) * float_of_int t)"
      by (simp add: y_def)
  qed
qed


lemma count_label_Cons:
  "count_label (l # ls) c = (if l = c then 1 else 0) + count_label ls c"
  by (simp add: count_label_def)

lemma count_label_bounds: "0 \<le> count_label ls c \<and> count_label ls c \<le> int (length ls)"
  by (simp add: count_label_def)

section \<open>The truncated percentages\<close>

text \<open>
  \<^verbatim>\<open>int(100 * (pixels / apple_pixels))\<close> in binary64. When \<open>100 * pixels\<close> is not a
  multiple of \<open>apple_pixels\<close>, the two roundings move the product by less than
  \<open>1 / apple_pixels\<close> and the truncation is the integer quotient. When it is a multiple,
  the quotient \<open>pixels / apple_pixels\<close> is one of the 101 hundredths, and the product falls
  just below the integer for 0.29, 0.57 and 0.58.
\<close>

lemmas fl_eval =
  fl_at_exponent [where e = "-7"] fl_at_exponent [where e = "-6"] fl_at_exponent [where e = "-5"]
  fl_at_exponent [where e = "-4"] fl_at_exponent [where e = "-3"] fl_at_exponent [where e = "-2"]
  fl_at_exponent [where e = "-1"] fl_at_exponent [where e = "0"] fl_at_exponent [where e = "1"]
  fl_at_exponent [where e = "2"] fl_at_exponent [where e = "3"] fl_at_exponent [where e = "4"]
  fl_at_exponent [where e = "5"] fl_at_exponent [where e = "6"]

lemma percent_generic:
  assumes p0: "0 \<le> p" and pa: "p \<le> a" and a44: "a < 2 ^ 44" and nd: "\<not> a dvd 100 * p"
  shows "py_int (fl (100 * fl (of_int p / of_int a))) = (100 * p) div a"
proof -
  define n where "n = (100 * p) div a"
  define r where "r = (100 * p) mod a"
  have a0: "0 < a" using p0 pa nd by (cases "a = 0") auto
  have "0 \<le> r" and "r < a" using a0 by (simp_all add: r_def)
  moreover have "r \<noteq> 0" using nd by (simp add: r_def dvd_eq_mod_eq_0)
  ultimately have r1: "1 \<le> r" and ra: "r \<le> a - 1" by linarith+
  have eq: "100 * p = n * a + r" by (simp add: n_def r_def)
  define x :: real where "x = 100 * of_int p / of_int a"
  have rA: "(0::real) < of_int a" using a0 by simp
  have "of_int (100 * p) = (of_int (n * a + r) :: real)" using eq by simp
  then have xeq: "x = of_int n + of_int r / of_int a"
    using rA by (simp add: x_def field_simps)
  have "(of_int a :: real) < 2 ^ 44" using a44
    by (metis of_int_less_iff of_int_numeral of_int_power)
  then have ia: "1 / 2 ^ 44 < 1 / (of_int a :: real)"
    using rA by (simp add: field_simps)
  have "(1::real) \<le> of_int r" using r1 by simp
  then have "1 / of_int a \<le> of_int r / (of_int a :: real)"
    using rA by (simp add: divide_right_mono)
  then have xlo: "of_int n + 1 / of_int a \<le> x" by (simp add: xeq)
  have "(of_int r :: real) \<le> of_int a - 1" using ra by (metis of_int_le_iff of_int_diff of_int_1)
  then have "of_int r / (of_int a :: real) \<le> (of_int a - 1) / of_int a"
    using rA by (simp add: divide_right_mono)
  also have "\<dots> = 1 - 1 / of_int a" using rA by (simp add: field_simps)
  finally have xhi: "x \<le> of_int n + 1 - 1 / of_int a" by (simp add: xeq)
  define q :: real where "q = of_int p / of_int a"
  have q0: "0 \<le> q" using p0 rA by (simp add: q_def)
  have q1: "q \<le> 1" using pa rA by (simp add: q_def)
  have fq: "q - q / 2 ^ 53 \<le> fl q" "fl q \<le> q + q / 2 ^ 53" using fl_error_pos [OF q0] by auto
  have fq0: "0 \<le> fl q" using q0 by (rule fl_nonneg)
  define z where "z = 100 * fl q"
  have z0: "0 \<le> z" using fq0 by (simp add: z_def)
  have xq: "x = 100 * q" by (simp add: x_def q_def)
  have zlo: "x - 100 / 2 ^ 53 \<le> z" and zhi: "z \<le> x + 100 / 2 ^ 53"
    using fq q1 by (auto simp: z_def xq)
  have z101: "z \<le> 101" using zhi q1 by (simp add: xq)
  have fz: "z - z / 2 ^ 53 \<le> fl z" "fl z \<le> z + z / 2 ^ 53" using fl_error_pos [OF z0] by auto
  have ylo: "x - 201 / 2 ^ 53 \<le> fl z" using fz(1) zlo z101 by simp
  have yhi: "fl z \<le> x + 201 / 2 ^ 53" using fz(2) zhi z101 by simp
  have "of_int n < fl z" using ylo xlo ia by simp
  moreover have "fl z < of_int n + 1" using yhi xhi ia by simp
  ultimately have "\<lfloor>fl z\<rfloor> = n" by (simp add: floor_eq_iff)
  moreover have "0 \<le> fl z" using z0 by (rule fl_nonneg)
  ultimately show ?thesis by (simp add: py_int_def z_def q_def n_def)
qed


lemma percent_table_all:
  "\<forall>n \<in> set [0..100].
     py_int (fl (100 * fl (of_int n / 100))) = (if n \<in> {29, 57, 58} then n - 1 else n)"
  by (simp add: upto_rec1 fl_eval round_half_even_def py_int_def del: set_upto)

lemma percent_table:
  assumes "0 \<le> n" and "n \<le> 100"
  shows "py_int (fl (100 * fl (of_int n / 100))) = (if n \<in> {29, 57, 58} then n - 1 else n)"
proof -
  have "n \<in> set [0..100]" using assms by simp
  with percent_table_all show ?thesis by blast
qed

lemma percent_exact:
  assumes p0: "0 \<le> p" and pa: "p \<le> a" and a0: "0 < a" and d: "a dvd 100 * p"
  shows "py_int (fl (100 * fl (of_int p / of_int a))) =
         (if (100 * p) div a \<in> {29, 57, 58} then (100 * p) div a - 1 else (100 * p) div a)"
proof -
  define n where "n = (100 * p) div a"
  have eq: "100 * p = n * a" using d by (simp add: n_def)
  have n0: "0 \<le> n" using p0 a0 by (simp add: n_def pos_imp_zdiv_nonneg_iff)
  have "100 * p \<le> 100 * a" using pa by simp
  then have "n * a \<le> 100 * a" by (simp add: eq)
  then have n100: "n \<le> 100" using a0 by simp
  have "(of_int (100 * p) :: real) = of_int (n * a)" using eq by simp
  then have e: "(of_int p :: real) / of_int a = of_int n / 100"
    using a0 by (simp add: field_simps)
  show ?thesis unfolding n_def [symmetric] e by (rule percent_table [OF n0 n100])
qed

lemma percent_value:
  assumes "0 \<le> p" and "p \<le> a" and "0 < a" and "a < 2 ^ 44"
  shows "py_int (fl (100 * fl (of_int p / of_int a))) =
         (100 * p) div a - (if a dvd 100 * p \<and> (100 * p) div a \<in> {29, 57, 58} then 1 else 0)"
proof (cases "a dvd 100 * p")
  case True
  then show ?thesis using percent_exact [OF assms(1-3)] by simp
next
  case False
  then show ?thesis using percent_generic [OF assms(1,2,4)] by simp
qed

section \<open>The result outside the fallback\<close>

lemma nonfallback_value:
  assumes fc: "argmax (map (fst \<circ> snd) (centers km)) = Inr fc"
    and sc: "argmin (map fst (centers km)) = Inr sc"
    and f: "f = count_label (labels km) fc"
    and s: "s = count_label (labels km) sc"
    and pos: "0 < length (labels km)"
    and size: "length (labels km) < 2 ^ 43"
    and many: "int (length (labels km)) \<le> 20 * (f + s)"
  shows "compute_freshness_from_image km =
           Inr (py_int (fl (100 * fl (of_int f / of_int (f + s)))),
                py_int (fl (100 * fl (of_int s / of_int (f + s)))))"
    and "0 \<le> f" and "0 \<le> s" and "0 < f + s" and "f + s < 2 ^ 44"
proof -
  define t where "t = int (length (labels km))"
  have cf: "count_label (labels km) fc = f" and cs: "count_label (labels km) sc = s"
    using f s by simp_all
  have t43: "t < 2 ^ 43" using size unfolding t_def
    by (metis of_nat_less_iff of_nat_numeral of_nat_power)
  have t0: "0 < t" using pos by (simp add: t_def)
  show f0: "0 \<le> f" and s0: "0 \<le> s"
    using count_label_bounds [of "labels km"] by (auto simp: f s)
  have "f \<le> t" and "s \<le> t"
    using count_label_bounds [of "labels km"] by (auto simp: f s t_def)
  then show a44: "f + s < 2 ^ 44" using t43 by simp
  have many': "t \<le> 20 * (f + s)" using many by (simp add: t_def)
  with t0 show a0: "0 < f + s" by presburger
  have "\<not> of_int (f + s) < fl (fl (5/100) * float_of_int t)"
    using five_percent_test [of "f + s" t] f0 s0 a44 t0 t43 many' by simp
  then show "compute_freshness_from_image km =
           Inr (py_int (fl (100 * fl (of_int f / of_int (f + s)))),
                py_int (fl (100 * fl (of_int s / of_int (f + s)))))"
    using a0 cf cs
    by (simp add: compute_freshness_from_image_def Let_def fc sc t_def int_truediv_def)
qed


lemma quotients_sum_exact:
  assumes a0: "0 < (a::int)" and fs: "f + s = a" and d: "a dvd 100 * f"
  shows "a dvd 100 * s" and "(100 * f) div a + (100 * s) div a = 100"
proof -
  have e: "100 * s = 100 * a - 100 * f" using fs by simp
  show ds: "a dvd 100 * s" unfolding e using d by (intro dvd_diff) simp_all
  have "((100 * f) div a + (100 * s) div a) * a = 100 * f + 100 * s"
    using d ds by (simp add: algebra_simps)
  also have "\<dots> = 100 * a" using fs by simp
  finally show "(100 * f) div a + (100 * s) div a = 100" using a0 by simp
qed

lemma quotients_sum_inexact:
  assumes a0: "0 < (a::int)" and fs: "f + s = a" and d: "\<not> a dvd 100 * f"
  shows "\<not> a dvd 100 * s" and "(100 * f) div a + (100 * s) div a = 99"
proof -
  have e: "100 * f = 100 * a - 100 * s" using fs by simp
  show nds: "\<not> a dvd 100 * s"
  proof
    assume "a dvd 100 * s"
    then have "a dvd 100 * a - 100 * s" by (intro dvd_diff) simp_all
    with d e show False by simp
  qed
  define nf rf ns rs where "nf = (100 * f) div a" and "rf = (100 * f) mod a"
    and "ns = (100 * s) div a" and "rs = (100 * s) mod a"
  have ef: "100 * f = nf * a + rf" and es: "100 * s = ns * a + rs"
    by (simp_all add: nf_def rf_def ns_def rs_def)
  have "0 \<le> rf" "rf < a" "0 \<le> rs" "rs < a" using a0 by (simp_all add: rf_def rs_def)
  moreover have "rf \<noteq> 0" "rs \<noteq> 0" using d nds by (simp_all add: rf_def rs_def dvd_eq_mod_eq_0)
  ultimately have r: "0 < rf + rs" "rf + rs < 2 * a" by linarith+
  define k where "k = 100 - nf - ns"
  have "100 * a = nf * a + rf + (ns * a + rs)" using fs ef es by linarith
  then have ka: "k * a = rf + rs" by (simp add: k_def algebra_simps)
  have "0 < k"
  proof (rule ccontr)
    assume "\<not> 0 < k"
    then have "k * a \<le> 0" using a0 by (simp add: mult_le_0_iff)
    with ka r show False by linarith
  qed
  moreover have "k < 2"
  proof (rule ccontr)
    assume "\<not> k < 2"
    then have "2 * a \<le> k * a" using a0 by (intro mult_right_mono) auto
    with ka r show False by linarith
  qed
  ultimately have "k = 1" by linarith
  then show "(100 * f) div a + (100 * s) div a = 99"
    by (simp add: k_def nf_def ns_def)
qed

section \<open>Dry matter in closed form\<close>

text \<open>
  The two float operations of \<^verbatim>\<open>10.0 + 0.08 * freshness\<close> move the sum by less than
  \<open>1 / 2 ^ 40\<close>, and \<open>100 + 0.8 * freshness\<close> is never closer than a tenth to a half
  integer, so the decimal rounding is that of the exact sum.
\<close>

lemma fl_numeral_int: "fl 10 = 10" "fl 18 = 18"
  using fl_of_nat_int [of 10] fl_of_nat_int [of 18] by simp_all

lemma fl_eight_percent: "fl (8/100) = 5764607523034235 / 2 ^ 56"
  by (simp add: fl_at_exponent [where e = "-4"] round_half_even_def)

lemma py_round_near:
  assumes "\<bar>x * 10 ^ nd - of_int k\<bar> < 1/2"
  shows "py_round x nd = fl (of_int k / 10 ^ nd)"
  using round_half_even_near [OF assms] by (simp add: py_round_def)

lemma tenths_of_four_fifths:
  fixes c :: int
  shows "- (4 / 10) \<le> 8 * of_int c / 10 - (of_int ((8 * c + 5) div 10) :: real)"
    and "8 * of_int c / 10 - (of_int ((8 * c + 5) div 10) :: real) \<le> 4 / 10"
proof -
  define m r where "m = (8 * c + 5) div 10" and "r = (8 * c + 5) mod 10"
  have e: "8 * c + 5 = 10 * m + r" by (simp add: m_def r_def)
  have "0 \<le> r" "r < 10" by (simp_all add: r_def)
  moreover have "odd r"
  proof -
    have "odd (8 * c + 5)" by simp
    then show ?thesis unfolding e by simp
  qed
  ultimately have r: "1 \<le> r" "r \<le> 9" by (auto elim: oddE)
  have "(of_int (8 * c + 5) :: real) = of_int (10 * m + r)" using e by simp
  then have eq: "8 * (of_int c :: real) + 5 = 10 * of_int m + of_int r" by simp
  have rr: "(1::real) \<le> of_int r" "(of_int r :: real) \<le> 9" using r by simp_all
  show "- (4 / 10) \<le> 8 * of_int c / 10 - (of_int ((8 * c + 5) div 10) :: real)"
    unfolding m_def [symmetric] using eq rr by linarith
  show "8 * of_int c / 10 - (of_int ((8 * c + 5) div 10) :: real) \<le> 4 / 10"
    unfolding m_def [symmetric] using eq rr by linarith
qed

lemma dry_matter_clamped:
  assumes c0: "0 \<le> c" and c100: "c \<le> 100"
  shows "py_round (fl (10 + fl (fl (8/100) * float_of_int c))) 1
         = fl (of_int ((1005 + 8 * c) div 10) / 10)"
proof -
  define rc :: real where "rc = of_int c"
  have rc: "0 \<le> rc" "rc \<le> 100" using c0 c100 by (simp_all add: rc_def)
  have fc: "float_of_int c = rc" using c0 c100 by (simp add: float_of_int_exact rc_def)
  define w :: real where "w = 5764607523034235 / 2 ^ 56"
  define p where "p = fl (w * rc)"
  define s where "s = fl (10 + p)"
  have wc0: "0 \<le> w * rc" using rc by (simp add: w_def)
  have p1: "w * rc - w * rc / 2 ^ 53 \<le> p" and p2: "p \<le> w * rc + w * rc / 2 ^ 53"
    using fl_error_pos [OF wc0] by (simp_all add: p_def)
  have p0: "0 \<le> p" unfolding p_def using wc0 by (rule fl_nonneg)
  have s0: "0 \<le> 10 + p" using p0 by simp
  have s1: "10 + p - (10 + p) / 2 ^ 53 \<le> s" and s2: "s \<le> 10 + p + (10 + p) / 2 ^ 53"
    using fl_error_pos [OF s0] by (simp_all add: s_def)
  have lo: "10 + 8 * rc / 100 - 1 / 2 ^ 40 \<le> s"
    using p1 s1 rc unfolding w_def by (simp add: add_divide_distrib)
  have hi: "s \<le> 10 + 8 * rc / 100 + 1 / 2 ^ 40"
    using p2 s2 rc unfolding w_def by (simp add: add_divide_distrib)
  define k where "k = (1005 + 8 * c) div 10"
  have k: "k = 100 + (8 * c + 5) div 10" by (simp add: k_def)
  have t1: "- (4/10) \<le> 8 * rc / 10 - (of_int ((8 * c + 5) div 10) :: real)"
    and t2: "8 * rc / 10 - (of_int ((8 * c + 5) div 10) :: real) \<le> 4/10"
    unfolding rc_def by (rule tenths_of_four_fifths)+
  have rk: "(of_int k :: real) = 100 + of_int ((8 * c + 5) div 10)" by (simp add: k)
  have lo': "10 + 8 * rc / 100 - 1 / 1000 \<le> s" using lo by simp
  have hi': "s \<le> 10 + 8 * rc / 100 + 1 / 1000" using hi by simp
  have "s * 10 ^ 1 - of_int k < 1/2 \<and> - (s * 10 ^ 1 - of_int k) < 1/2"
    unfolding rk using lo' hi' t1 t2 by simp
  then have "\<bar>s * 10 ^ 1 - of_int k\<bar> < 1/2" by (simp only: abs_less_iff)
  then have "py_round s 1 = fl (of_int k / 10 ^ 1)" by (rule py_round_near)
  then show ?thesis unfolding fc fl_eight_percent by (simp add: s_def p_def w_def k_def)
qed


lemma dry_matter_closed_form:
  "dry_matter_from_freshness f = fl (of_int ((1005 + 8 * max 0 (min 100 f)) div 10) / 10)"
  unfolding dry_matter_from_freshness_def Let_def
  by (rule dry_matter_clamped) simp_all

section \<open>Decimal rounding of clamped values\<close>













section \<open>Bounds on the weight\<close>

text \<open>
  The floats written \<^verbatim>\<open>0.15\<close>, \<^verbatim>\<open>0.30\<close>, \<^verbatim>\<open>0.0015\<close>, \<^verbatim>\<open>0.02\<close> and \<^verbatim>\<open>1.2\<close>, and
  the lower bound \<open>10 powr 1.1 \<ge> 12\<close> that keeps the weight of the smallest radius above
  the rounding boundary 0.015.
\<close>

lemma fl_15: "fl (15/100) = 5404319552844595 / 2 ^ 55"
  by (simp add: fl_at_exponent [where e = "-3"] round_half_even_def)

lemma fl_30: "fl (30/100) = 5404319552844595 / 2 ^ 54"
  by (simp add: fl_at_exponent [where e = "-2"] round_half_even_def)

lemma fl_0015: "fl (15/10000) = 3458764513820541 / 2 ^ 61"
  by (simp add: fl_at_exponent [where e = "-10"] round_half_even_def)

lemma fl_002: "fl (2/100) = 5764607523034235 / 2 ^ 58"
  by (simp add: fl_at_exponent [where e = "-6"] round_half_even_def)

lemma fl_12: "fl (12/10) = 5404319552844595 / 2 ^ 52"
  by (simp add: fl_at_exponent [where e = 0] round_half_even_def)

lemma fl_fl_15: "fl (5404319552844595 / 2 ^ 55) = 5404319552844595 / 2 ^ 55"
  by (simp add: fl_at_exponent [where e = "-3"] round_half_even_def)

lemma fl_fl_30: "fl (5404319552844595 / 2 ^ 54) = 5404319552844595 / 2 ^ 54"
  by (simp add: fl_at_exponent [where e = "-2"] round_half_even_def)

lemma hundredths_15: "round_half_even (5404319552844595 / 2 ^ 55 * 10 ^ 2) = 15"
  by (simp add: round_half_even_def)

lemma hundredths_30: "round_half_even (5404319552844595 / 2 ^ 54 * 10 ^ 2) = 30"
  by (simp add: round_half_even_def)

lemma py_round_uniform_range:
  assumes lo: "fl (15/100) \<le> u" and hi: "u \<le> fl (30/100)"
  shows "fl (15/100) \<le> py_round u 2 \<and> py_round u 2 \<le> fl (30/100)"
proof -
  define K where "K = round_half_even (u * 10 ^ 2)"
  have "fl (15/100) * 10 ^ 2 \<le> u * 10 ^ 2" using lo by simp
  then have "round_half_even (fl (15/100) * 10 ^ 2) \<le> K"
    unfolding K_def by (rule round_half_even_mono)
  then have "15 \<le> K" unfolding fl_15 hundredths_15 .
  then have "(15::real) \<le> of_int K" by simp
  then have "(15/100 :: real) \<le> of_int K / 10 ^ 2" by simp
  then have A: "fl (15/100) \<le> fl (of_int K / 10 ^ 2)" by (rule fl_mono)
  have "u * 10 ^ 2 \<le> fl (30/100) * 10 ^ 2" using hi by simp
  then have "K \<le> round_half_even (fl (30/100) * 10 ^ 2)"
    unfolding K_def by (rule round_half_even_mono)
  then have "K \<le> 30" unfolding fl_30 hundredths_30 .
  then have "of_int K \<le> (30::real)" by simp
  then have "of_int K / 10 ^ 2 \<le> (30/100 :: real)" by simp
  then have B: "fl (of_int K / 10 ^ 2) \<le> fl (30/100)" by (rule fl_mono)
  show ?thesis using A B by (simp add: py_round_def K_def)
qed

lemma random_uniform_range:
  assumes r0: "0 \<le> r" and r1: "r < 1"
  shows "fl (15/100) \<le> random_uniform (fl (15/100)) (fl (30/100)) r
       \<and> random_uniform (fl (15/100)) (fl (30/100)) r \<le> fl (30/100)"
proof -
  define A :: real where "A = 5404319552844595 / 2 ^ 55"
  have a: "fl (15/100) = A" unfolding A_def by (rule fl_15)
  have b: "fl (30/100) = 2 * A" unfolding A_def fl_30 by simp
  have fA: "fl A = A" unfolding A_def by (rule fl_fl_15)
  have f2A: "fl (2 * A) = 2 * A"
  proof -
    have "2 * A = 5404319552844595 / 2 ^ 54" by (simp add: A_def)
    then show ?thesis by (simp only: fl_fl_30)
  qed
  have A0: "0 < A" by (simp add: A_def)
  have ar0: "0 \<le> A * r" and ar1: "A * r \<le> A"
    using r0 r1 A0 by (simp_all add: mult_le_cancel_left1)
  have p0: "0 \<le> fl (A * r)" using ar0 by (rule fl_nonneg)
  have "fl (A * r) \<le> fl A" using ar1 by (rule fl_mono)
  then have p1: "fl (A * r) \<le> A" by (simp only: fA)
  note p = p0 p1
  have "fl A \<le> fl (A + fl (A * r))" using p by (intro fl_mono) simp
  moreover have "fl (A + fl (A * r)) \<le> fl (2 * A)" using p by (intro fl_mono) simp
  ultimately have "A \<le> fl (A + fl (A * r))" and "fl (A + fl (A * r)) \<le> 2 * A"
    by (simp_all add: fA f2A)
  moreover have "random_uniform (fl (15/100)) (fl (30/100)) r = fl (A + fl (A * r))"
    unfolding random_uniform_def a b by (simp add: fA)
  ultimately show ?thesis unfolding a b by simp
qed


lemma tenth_root_of_power:
  assumes "0 < (b::real)"
  shows "(b ^ 10) powr (1/10) = b"
proof -
  have "b ^ 10 = b powr 10" using powr_realpow [OF assms, of 10] by simp
  then have "(b ^ 10) powr (1/10) = b powr (10 * (1/10))" by (simp only: powr_powr)
  then show ?thesis using assms by simp
qed

lemma ten_powr_lower: "12 \<le> (10::real) powr (11/10)"
proof -
  define b :: real where "b = 12/10"
  have b0: "0 < b" by (simp add: b_def)
  have "b ^ 10 \<le> 10" by (simp add: b_def power_divide)
  then have "(b ^ 10) powr (1/10) \<le> 10 powr (1/10)"
    using b0 by (intro powr_mono2) auto
  then have "b \<le> 10 powr (1/10)" by (simp only: tenth_root_of_power [OF b0])
  then have "12 \<le> 10 * (10::real) powr (1/10)" by (simp add: b_def)
  moreover have "(10::real) powr (11/10) = 10 * 10 powr (1/10)"
    using powr_add [of "10::real" 1 "1/10"] by simp
  ultimately show ?thesis by simp
qed

lemma pow_lower:
  assumes acc: "pow_accurate pw" and x10: "10 \<le> x"
  shows "11 \<le> pw x"
proof -
  define y :: real where "y = fl (12/10)"
  define z where "z = x powr y"
  have y: "11/10 \<le> y" unfolding y_def fl_12 by simp
  have "(10::real) powr (11/10) \<le> 10 powr y" using y by (intro powr_mono) auto
  moreover have "(10::real) powr y \<le> x powr y" using x10 y by (intro powr_mono2) auto
  ultimately have z12: "12 \<le> z" using ten_powr_lower unfolding z_def by linarith
  have "\<bar>pw x - z\<bar> \<le> z / 2 ^ 52"
    using acc x10 by (simp add: pow_accurate_def z_def y_def)
  then have "pw x - z \<le> z / 2 ^ 52 \<and> - (pw x - z) \<le> z / 2 ^ 52"
    by (simp only: abs_le_iff)
  then have "z - z / 2 ^ 52 \<le> pw x" by linarith
  then show ?thesis using z12 by simp
qed

lemma hundredths_lower: "round_half_even (16/10) = 2"
  by (simp add: round_half_even_def)

lemma weight_contour_lower:
  assumes p: "11 \<le> p"
  shows "fl (2/100) \<le> py_round (fl (fl (15/10000) * p)) 2"
proof -
  define c :: real where "c = 3458764513820541 / 2 ^ 61"
  define w where "w = fl (c * p)"
  define K where "K = round_half_even (w * 10 ^ 2)"
  have cp: "0 \<le> c * p" using p by (simp add: c_def)
  have "c * p - c * p / 2 ^ 53 \<le> w" unfolding w_def using cp by (rule fl_error_pos)
  then have "16/10 \<le> w * 10 ^ 2" using p by (simp add: c_def)
  then have "round_half_even (16/10) \<le> K" unfolding K_def by (rule round_half_even_mono)
  then have "2 \<le> K" by (simp only: hundredths_lower)
  then have "(2::real) \<le> of_int K" by simp
  then have "(2/100 :: real) \<le> of_int K / 10 ^ 2" by simp
  then have "fl (2/100) \<le> fl (of_int K / 10 ^ 2)" by (rule fl_mono)
  then show ?thesis unfolding fl_0015 by (simp add: py_round_def K_def w_def c_def)
qed

lemma estimate_weight_lower:
  assumes acc: "pow_accurate pw" and lo: "fl (15/100) \<le> u" and hi: "u \<le> fl (30/100)"
  shows "fl (2/100) \<le> estimate_weight_from_image contours u pw"
proof (cases contours)
  case Nil
  have "(2/100 :: real) \<le> 15/100" by simp
  then have "fl (2/100) \<le> fl (15/100)" by (rule fl_mono)
  also have "\<dots> \<le> py_round u 2" using py_round_uniform_range [OF lo hi] by simp
  finally show ?thesis using Nil by (simp add: estimate_weight_from_image_def)
next
  case (Cons c0 cs)
  define radius where "radius = max (enclosing_radius (max_by_area c0 cs)) 10"
  have "10 \<le> radius" by (simp add: radius_def)
  then have "11 \<le> pw radius" using acc by (intro pow_lower)
  then have "fl (2/100) \<le> py_round (fl (fl (15/10000) * pw radius)) 2"
    by (rule weight_contour_lower)
  then show ?thesis using Cons
    by (simp add: estimate_weight_from_image_def Let_def radius_def)
qed

lemma pow_accurate_rounded: "pow_accurate (\<lambda>x. fl (x powr fl (12/10)))"
  unfolding pow_accurate_def
proof (intro allI impI)
  fix x :: real
  assume "0 < x"
  define z where "z = x powr fl (12/10)"
  have z0: "0 \<le> z" by (simp add: z_def)
  have "\<bar>fl z - z\<bar> \<le> \<bar>z\<bar> / 2 ^ 53" by (rule fl_error)
  also have "\<dots> \<le> z / 2 ^ 52" using z0 by simp
  finally show "\<bar>fl (x powr fl (12/10)) - x powr fl (12/10)\<bar> \<le> x powr fl (12/10) / 2 ^ 52"
    by (simp add: z_def)
qed


lemma quarter_in_uniform_range: "fl (15/100) \<le> 1/4" "1/4 \<le> fl (30/100)"
  unfolding fl_15 fl_30 by simp_all

section \<open>Shape of a clustering\<close>

lemma argmin_from_bound:
  "best < i \<Longrightarrow> argmin_from xs i best bv < i + length xs"
proof (induction xs arbitrary: i best bv)
  case Nil
  then show ?case by simp
next
  case (Cons x xs)
  have a: "argmin_from xs (i + 1) i x < (i + 1) + length xs"
    by (rule Cons.IH) simp
  have b: "argmin_from xs (i + 1) best bv < (i + 1) + length xs"
    using Cons.prems by (intro Cons.IH) simp
  show ?case using a b by simp
qed

lemma nearest_centroid_bound:
  assumes "cs \<noteq> []"
  shows "nearest_centroid cs p < length cs"
proof -
  from assms obtain c rest where cs: "cs = c # rest" by (cases cs) auto
  have "argmin_from (map (sqdist p) rest) 1 0 (sqdist p c) < 1 + length (map (sqdist p) rest)"
    by (rule argmin_from_bound) simp
  then show ?thesis by (simp add: nearest_centroid_def cs)
qed

lemma assign_clusters_bound:
  assumes "cs \<noteq> []" and "l \<in> set (assign_clusters cs samples)"
  shows "l < length cs"
  using assms nearest_centroid_bound [OF assms(1)] by (auto simp: assign_clusters_def)

lemma length_assign_clusters: "length (assign_clusters cs samples) = length samples"
  by (simp add: assign_clusters_def)

lemma length_refine_centroids: "length (refine_centroids samples cs ls) = length cs"
  by (simp add: refine_centroids_def)

lemma lloyd_result:
  "lloyd n samples cs = (cs', ls) \<Longrightarrow>
     length cs' = length cs \<and> ls = assign_clusters cs' samples"
proof (induction n arbitrary: cs)
  case 0
  then show ?case by auto
next
  case (Suc n)
  define cs1 where "cs1 = refine_centroids samples cs (assign_clusters cs samples)"
  have len: "length cs1 = length cs" by (simp add: cs1_def length_refine_centroids)
  show ?case
  proof (cases "centroids_moved cs cs1")
    case True
    then have "lloyd n samples cs1 = (cs', ls)"
      using Suc.prems by (simp add: Let_def cs1_def)
    from Suc.IH [OF this] len show ?thesis by simp
  next
    case False
    then have "cs' = cs1" and "ls = assign_clusters cs1 samples"
      using Suc.prems by (auto simp: Let_def cs1_def)
    with len show ?thesis by simp
  qed
qed

lemma best_run_member: "best_run samples best runs \<in> set (best # runs)"
  by (induction runs arbitrary: best) (auto split: if_splits)

lemma clustering_run_shape:
  assumes "clustering_run 3 seed samples = (cs, ls)"
  shows "length cs = 3 \<and> ls = assign_clusters cs samples"
  using lloyd_result [of 20 samples "map seed [0..<3]" cs ls] assms
  by (simp add: clustering_run_def)

lemma cluster_engine_shape:
  "length (centers (cluster_engine seeds samples)) = 3 \<and>
   labels (cluster_engine seeds samples)
     = assign_clusters (centers (cluster_engine seeds samples)) samples"
proof -
  define runs where "runs = map (\<lambda>i. clustering_run 3 (seeds i) samples) [0..<5]"
  define best where "best = best_run samples (hd runs) (tl runs)"
  have ne: "runs \<noteq> []" by (simp add: runs_def)
  then have "hd runs # tl runs = runs" by simp
  then have "best \<in> set runs" using best_run_member [of samples "hd runs" "tl runs"]
    by (simp add: best_def)
  then obtain i where "best = clustering_run 3 (seeds i) samples"
    by (auto simp: runs_def)
  then have "clustering_run 3 (seeds i) samples = (fst best, snd best)" by simp
  from clustering_run_shape [OF this]
  have "length (fst best) = 3 \<and> snd best = assign_clusters (fst best) samples" .
  moreover have "cluster_engine seeds samples = \<lparr>labels = snd best, centers = fst best\<rparr>"
    by (simp add: cluster_engine_def Let_def runs_def best_def)
  ultimately show ?thesis by simp
qed

lemma label_counts_partition:
  "\<forall>l \<in> set ls. l < 3 \<Longrightarrow>
     count_label ls 0 + count_label ls 1 + count_label ls 2 = int (length ls)"
proof (induction ls)
  case Nil
  then show ?case by (simp add: count_label_def)
next
  case (Cons l ls)
  then have "l = 0 \<or> l = 1 \<or> l = 2" by auto
  with Cons show ?case by (auto simp: count_label_Cons)
qed

section \<open>Properties\<close>

text \<open>
  Claim C3. For every integer ratio between 0 and 100 the label is Low exactly on 0..25,
  Medium exactly on 26..50 and High exactly on 51..100; the boundary values 25, 26, 50 and
  51 map to Low, Medium, Medium and High.
\<close>

theorem spoilage_risk_label_bands:
  "(0 \<le> r \<and> r \<le> 100 \<longrightarrow>
      (spoilage_risk_label_from_ratio r = ''Low'' \<longleftrightarrow> 0 \<le> r \<and> r \<le> 25) \<and>
      (spoilage_risk_label_from_ratio r = ''Medium'' \<longleftrightarrow> 26 \<le> r \<and> r \<le> 50) \<and>
      (spoilage_risk_label_from_ratio r = ''High'' \<longleftrightarrow> 51 \<le> r \<and> r \<le> 100)) \<and>
   spoilage_risk_label_from_ratio 25 = ''Low'' \<and>
   spoilage_risk_label_from_ratio 26 = ''Medium'' \<and>
   spoilage_risk_label_from_ratio 50 = ''Medium'' \<and>
   spoilage_risk_label_from_ratio 51 = ''High''"
  by (simp add: spoilage_risk_label_from_ratio_def)

theorem spoilage_risk_label_bands_witness:
  "(0 \<le> (37::int) \<and> (37::int) \<le> 100) \<and> spoilage_risk_label_from_ratio 37 = ''Medium''"
  using spoilage_risk_label_bands [of 37] by simp

text \<open>
  Claim C2. When the fresh and the spoiled cluster together hold fewer than 5 percent of
  the pixels, the result is the fixed pair (60, 30), whatever the colours are. The float
  comparison \<^verbatim>\<open>apple_pixels < 0.05 * total_pixels\<close> of the code decides exactly
  \<open>20 * apple_pixels < total_pixels\<close> for every image of fewer than \<open>2 ^ 52\<close> pixels.
\<close>

theorem fallback_pair_below_five_percent:
  assumes fc: "argmax (map (fst \<circ> snd) (centers km)) = Inr fc"
    and sc: "argmin (map fst (centers km)) = Inr sc"
    and size: "length (labels km) < 2 ^ 52"
    and few: "20 * (count_label (labels km) fc + count_label (labels km) sc)
                < int (length (labels km))"
  shows "compute_freshness_from_image km = Inr (60, 30)"
proof -
  define a where "a = count_label (labels km) fc + count_label (labels km) sc"
  define t where "t = int (length (labels km))"
  have t52: "t < 2 ^ 52" using size unfolding t_def
    by (metis of_nat_less_iff of_nat_numeral of_nat_power)
  have a0: "0 \<le> a" and a2t: "a \<le> 2 * t"
    using count_label_bounds [of "labels km" fc] count_label_bounds [of "labels km" sc]
    by (auto simp: a_def t_def)
  have "of_int a < fl (fl (5/100) * float_of_int t)"
    using five_percent_test [of a t] a0 a2t t52 few by (simp add: a_def t_def)
  then show ?thesis
    unfolding compute_freshness_from_image_def Let_def fc sc a_def t_def by simp
qed

theorem fallback_pair_below_five_percent_witness:
  "argmax (map (fst \<circ> snd) (centers \<lparr>labels = 0 # replicate 25 2,
       centers = [(50, 20, 0), (20, 0, 0), (80, 0, 0)]\<rparr>)) = Inr 0 \<and>
   argmin (map fst (centers \<lparr>labels = 0 # replicate 25 2,
       centers = [(50, 20, 0), (20, 0, 0), (80, 0, 0)]\<rparr>)) = Inr 1 \<and>
   compute_freshness_from_image \<lparr>labels = 0 # replicate 25 2,
       centers = [(50, 20, 0), (20, 0, 0), (80, 0, 0)]\<rparr> = Inr (60, 30)"
  using fallback_pair_below_five_percent
    [of "\<lparr>labels = 0 # replicate 25 2, centers = [(50, 20, 0), (20, 0, 0), (80, 0, 0)]\<rparr>" 0 1]
  by (simp add: argmax_def argmin_def count_label_def)

text \<open>
  Claim C6. A run of the cluster engine with three clusters gives every pixel exactly one
  of the ids 0, 1 and 2: there are three centroids and one label per pixel, every label
  is one of the three ids, and the pixel counts of the three clusters, counted as the
  code counts them, add up to the number of pixels. This holds for every list of samples
  and every outcome of the seeding.
\<close>

theorem cluster_engine_partitions_pixels:
  "length (centers (cluster_engine seeds samples)) = 3 \<and>
   length (labels (cluster_engine seeds samples)) = length samples \<and>
   set (labels (cluster_engine seeds samples)) \<subseteq> {0, 1, 2} \<and>
   count_label (labels (cluster_engine seeds samples)) 0
     + count_label (labels (cluster_engine seeds samples)) 1
     + count_label (labels (cluster_engine seeds samples)) 2
     = int (length samples)"
proof -
  define km where "km = cluster_engine seeds samples"
  have len3: "length (centers km) = 3"
    and lab: "labels km = assign_clusters (centers km) samples"
    using cluster_engine_shape [of seeds samples] by (simp_all add: km_def)
  have ne: "centers km \<noteq> []" using len3 by auto
  have len: "length (labels km) = length samples"
    by (simp add: lab length_assign_clusters)
  have bound: "\<forall>l \<in> set (labels km). l < 3"
    using assign_clusters_bound [OF ne] len3 by (auto simp: lab)
  then have sub: "set (labels km) \<subseteq> {0, 1, 2}" by (auto simp: less_Suc_eq numeral_3_eq_3)
  have "count_label (labels km) 0 + count_label (labels km) 1 + count_label (labels km) 2
        = int (length (labels km))"
    using bound by (rule label_counts_partition)
  with len3 len sub show ?thesis by (simp add: km_def)
qed

theorem cluster_engine_partitions_pixels_witness:
  "count_label (labels (cluster_engine (\<lambda>i j. [(10, 0, 0), (50, 40, 0), (90, 0, 0)] ! j)
       [(12, 1, 0), (48, 39, 1), (88, 2, 2), (11, 0, 0), (52, 41, 0)])) 0
   + count_label (labels (cluster_engine (\<lambda>i j. [(10, 0, 0), (50, 40, 0), (90, 0, 0)] ! j)
       [(12, 1, 0), (48, 39, 1), (88, 2, 2), (11, 0, 0), (52, 41, 0)])) 1
   + count_label (labels (cluster_engine (\<lambda>i j. [(10, 0, 0), (50, 40, 0), (90, 0, 0)] ! j)
       [(12, 1, 0), (48, 39, 1), (88, 2, 2), (11, 0, 0), (52, 41, 0)])) 2
   = 5"
  using cluster_engine_partitions_pixels
    [of "\<lambda>i j. [(10, 0, 0), (50, 40, 0), (90, 0, 0)] ! j"
        "[(12, 1, 0), (48, 39, 1), (88, 2, 2), (11, 0, 0), (52, 41, 0)]"]
  by simp




text \<open>
  Claim C9. Outside the fallback the two results add up to 99 or to 100, and when the
  fresh and the spoiled cluster are the same cluster both results are 50.
\<close>

theorem percentages_sum_99_or_100:
  assumes "argmax (map (fst \<circ> snd) (centers km)) = Inr fc"
    and "argmin (map fst (centers km)) = Inr sc"
    and "f = count_label (labels km) fc"
    and "s = count_label (labels km) sc"
    and "0 < length (labels km)"
    and "length (labels km) < 2 ^ 43"
    and "int (length (labels km)) \<le> 20 * (f + s)"
  shows "\<exists>fs sr. compute_freshness_from_image km = Inr (fs, sr) \<and>
           (fs + sr = 99 \<or> fs + sr = 100) \<and>
           (fc = sc \<longrightarrow> fs = 50 \<and> sr = 50)"
proof -
  note nf = nonfallback_value [OF assms]
  define a where "a = f + s"
  define P where "P p = (100 * p) div a - (if a dvd 100 * p \<and> (100 * p) div a \<in> {29, 57, 58} then 1 else 0)" for p
  have a0: "0 < a" using nf(4) by (simp add: a_def)
  have pf: "py_int (fl (100 * fl (of_int f / of_int (f + s)))) = P f"
    unfolding P_def a_def using nf(2-5) by (intro percent_value) auto
  have ps: "py_int (fl (100 * fl (of_int s / of_int (f + s)))) = P s"
    unfolding P_def a_def using nf(2-5) by (intro percent_value) auto
  have res: "compute_freshness_from_image km = Inr (P f, P s)"
    using nf(1) by (simp only: pf ps)
  have sum: "P f + P s = 99 \<or> P f + P s = 100"
  proof (cases "a dvd 100 * f")
    case True
    from quotients_sum_exact [OF a0 a_def [symmetric] True]
    have "a dvd 100 * s" and "(100 * f) div a + (100 * s) div a = 100" by auto
    then show ?thesis using True by (auto simp: P_def)
  next
    case False
    from quotients_sum_inexact [OF a0 a_def [symmetric] False]
    have "\<not> a dvd 100 * s" and "(100 * f) div a + (100 * s) div a = 99" by auto
    then show ?thesis using False by (auto simp: P_def)
  qed
  have same: "P f = 50 \<and> P s = 50" if "fc = sc"
  proof -
    have fs: "s = f" using that assms(3,4) by simp
    have f0: "0 < f" using a0 by (simp add: a_def fs)
    have a2: "a = 2 * f" by (simp add: a_def fs)
    have e: "100 * f = 50 * a" by (simp add: a2)
    have "(100 * f) div a = 50" unfolding e using a0 by simp
    then show ?thesis by (simp add: P_def fs)
  qed
  show ?thesis using res sum same by blast
qed

theorem percentages_sum_99_or_100_witness:
  "compute_freshness_from_image
     \<lparr>labels = [0, 0, 1, 2], centers = [(20, 30, 0), (50, 0, 0), (80, 0, 0)]\<rparr>
   = Inr (50, 50)"
proof -
  define km where
    "km = \<lparr>labels = [0, 0, 1, 2], centers = [(20, 30, 0), (50, 0, 0), (80, 0, 0)]\<rparr>"
  have h1: "argmax (map (fst \<circ> snd) (centers km)) = Inr 0"
    and h2: "argmin (map fst (centers km)) = Inr 0"
    by (simp_all add: km_def argmax_def argmin_def)
  have h3: "2 = count_label (labels km) 0" by (simp add: km_def count_label_def)
  have h5: "0 < length (labels km)" and h6: "length (labels km) < 2 ^ 43"
    and h7: "int (length (labels km)) \<le> 20 * (2 + 2)"
    by (simp_all add: km_def)
  from percentages_sum_99_or_100 [OF h1 h2 h3 h3 h5 h6 h7]
  obtain fs sr where "compute_freshness_from_image km = Inr (fs, sr)" and "fs = 50 \<and> sr = 50"
    by blast
  then show ?thesis by (simp add: km_def)
qed

text \<open>
  Claim C4. For every integer freshness, clamped to 0..100 first, the dry matter is a
  float between 10.0 and 18.0 with one decimal (the float nearest to the tenth that
  \<open>10 + 0.08 * freshness\<close> rounds to), and it does not decrease when the freshness grows.
\<close>

theorem dry_matter_range_and_monotone:
  "dry_matter_from_freshness f = fl (of_int ((1005 + 8 * max 0 (min 100 f)) div 10) / 10) \<and>
   10 \<le> dry_matter_from_freshness f \<and> dry_matter_from_freshness f \<le> 18 \<and>
   (f \<le> f' \<longrightarrow> dry_matter_from_freshness f \<le> dry_matter_from_freshness f')"
proof -
  define K where "K g = (1005 + 8 * max 0 (min 100 g)) div 10" for g :: int
  have cf: "dry_matter_from_freshness g = fl (of_int (K g) / 10)" for g
    by (simp add: dry_matter_closed_form K_def)
  have Klo: "100 \<le> K g" and Khi: "K g \<le> 180" for g
    by (simp_all add: K_def)
  have lo: "10 \<le> dry_matter_from_freshness g" for g
  proof -
    have "(10::real) \<le> of_int (K g) / 10" using Klo [of g] by simp
    then have "fl 10 \<le> fl (of_int (K g) / 10)" by (rule fl_mono)
    then show ?thesis by (simp add: cf fl_numeral_int)
  qed
  have hi: "dry_matter_from_freshness g \<le> 18" for g
  proof -
    have "of_int (K g) / 10 \<le> (18::real)" using Khi [of g] by simp
    then have "fl (of_int (K g) / 10) \<le> fl 18" by (rule fl_mono)
    then show ?thesis by (simp add: cf fl_numeral_int)
  qed
  have mono: "dry_matter_from_freshness f \<le> dry_matter_from_freshness f'" if "f \<le> f'"
  proof -
    have "K f \<le> K f'" unfolding K_def using that by (intro zdiv_mono1) auto
    then have "(of_int (K f) :: real) / 10 \<le> of_int (K f') / 10" by simp
    then show ?thesis unfolding cf by (rule fl_mono)
  qed
  show ?thesis using lo hi mono by (simp add: cf K_def)
qed

theorem dry_matter_range_and_monotone_witness:
  "(40::int) \<le> 41 \<and> dry_matter_from_freshness 40 = fl (132 / 10) \<and>
   dry_matter_from_freshness 40 \<le> dry_matter_from_freshness 41"
  using dry_matter_range_and_monotone [of 40 41] by simp


text \<open>
  Claim C7. The estimated weight is never negative: for every list of contours, the
  empty one included, every value that \<^verbatim>\<open>random.uniform(0.15, 0.30)\<close> can return
  and every power function of the assumed accuracy.
\<close>

theorem weight_nonnegative:
  assumes "pow_accurate pw" and "fl (15/100) \<le> u" and "u \<le> fl (30/100)"
  shows "0 \<le> estimate_weight_from_image contours u pw"
proof -
  have "(0::real) \<le> 2/100" by simp
  then have "0 \<le> fl (2/100)" by (rule fl_nonneg)
  also have "\<dots> \<le> estimate_weight_from_image contours u pw"
    using assms by (rule estimate_weight_lower)
  finally show ?thesis .
qed

theorem weight_nonnegative_witness:
  "0 \<le> estimate_weight_from_image [] (1/4) (\<lambda>x. fl (x powr fl (12/10)))"
  using weight_nonnegative [OF pow_accurate_rounded quarter_in_uniform_range] .

text \<open>
  Claim C8. When no contour is found the result lies between the floats 0.15 and 0.30:
  rounding to two decimals keeps a value of that range inside it, and
  \<^verbatim>\<open>random.uniform(0.15, 0.30)\<close> returns a value of that range for every draw
  \<open>0 \<le> r < 1\<close>.
\<close>

theorem no_contour_weight_in_range:
  "(fl (15/100) \<le> u \<and> u \<le> fl (30/100) \<longrightarrow>
      fl (15/100) \<le> estimate_weight_from_image [] u pw \<and>
      estimate_weight_from_image [] u pw \<le> fl (30/100)) \<and>
   (0 \<le> r \<and> r < 1 \<longrightarrow>
      fl (15/100) \<le> random_uniform (fl (15/100)) (fl (30/100)) r \<and>
      random_uniform (fl (15/100)) (fl (30/100)) r \<le> fl (30/100))"
proof -
  have "estimate_weight_from_image [] u pw = py_round u 2"
    by (simp add: estimate_weight_from_image_def)
  then show ?thesis
    using py_round_uniform_range [of u] random_uniform_range [of r] by simp
qed

theorem no_contour_weight_in_range_witness:
  "fl (15/100) \<le> estimate_weight_from_image []
      (random_uniform (fl (15/100)) (fl (30/100)) (1/2)) (\<lambda>x. x) \<and>
   estimate_weight_from_image []
      (random_uniform (fl (15/100)) (fl (30/100)) (1/2)) (\<lambda>x. x) \<le> fl (30/100)"
proof -
  note t = no_contour_weight_in_range
    [of "random_uniform (fl (15/100)) (fl (30/100)) (1/2)" "\<lambda>x. x" "1/2"]
  have r: "(0::real) \<le> 1/2 \<and> (1/2::real) < 1" by simp
  from t r have "fl (15/100) \<le> random_uniform (fl (15/100)) (fl (30/100)) (1/2) \<and>
      random_uniform (fl (15/100)) (fl (30/100)) (1/2) \<le> fl (30/100)" by blast
  with t show ?thesis by blast
qed

text \<open>
  Claim C10. The estimated weight is at least the float 0.02, hence positive: with a
  contour the radius is at least 10 and \<open>0.0015 * radius ** 1.2\<close> rounds to 0.02 or more,
  and without a contour the result is at least 0.15.
\<close>

theorem weight_at_least_two_hundredths:
  assumes "pow_accurate pw" and "fl (15/100) \<le> u" and "u \<le> fl (30/100)"
  shows "fl (2/100) \<le> estimate_weight_from_image contours u pw \<and>
         0 < estimate_weight_from_image contours u pw \<and>
         (contours = [] \<longrightarrow> fl (15/100) \<le> estimate_weight_from_image contours u pw)"
proof -
  have A: "fl (2/100) \<le> estimate_weight_from_image contours u pw"
    using assms by (rule estimate_weight_lower)
  have "(0::real) < fl (2/100)" unfolding fl_002 by simp
  with A have B: "0 < estimate_weight_from_image contours u pw" by linarith
  have C: "fl (15/100) \<le> estimate_weight_from_image contours u pw" if "contours = []"
    using that py_round_uniform_range [OF assms(2,3)]
    by (simp add: estimate_weight_from_image_def)
  show ?thesis using A B C by blast
qed

theorem weight_at_least_two_hundredths_witness:
  "fl (2/100) \<le> estimate_weight_from_image
      [\<lparr>contourArea = 400, enclosing_radius = 32\<rparr>] (1/4) (\<lambda>x. fl (x powr fl (12/10)))"
  using weight_at_least_two_hundredths [OF pow_accurate_rounded quarter_in_uniform_range]
  by blast

end
